theory Spec2Isabelle
  imports Main "HOL-Library.Word" "HOL-Library.Char_ord" "HOL-Library.List_Lexorder"
    "HOL-Library.Sublist"
begin

unbundle bit_operations_syntax

section \<open>Python values\<close>

text \<open>
  The values that flow through \<^verbatim>\<open>EthosAuditLogger\<close> are arbitrary Python objects
  (\<^verbatim>\<open>Any\<close>).  The embedding covers \<^verbatim>\<open>None\<close>, \<^verbatim>\<open>bool\<close>, \<^verbatim>\<open>int\<close> (unbounded),
  \<^verbatim>\<open>str\<close>, \<^verbatim>\<open>list\<close>, \<^verbatim>\<open>tuple\<close> and \<^verbatim>\<open>dict\<close> with \<^verbatim>\<open>str\<close> or \<^verbatim>\<open>int\<close> keys.
  A \<^verbatim>\<open>str\<close> is a list of code points below 256; floats, user classes and cyclic
  structures are outside the embedding, and so is the interpreter's optional limit on
  the number of digits of an integer rendered in decimal.  A \<^verbatim>\<open>dict\<close> keeps its
  insertion order, so it is an association list; Python keeps its keys distinct.
\<close>

datatype pykey = is_KStr: KStr (un_KStr: string) | is_KInt: KInt (un_KInt: int)

datatype pyval =
    PNone
  | PBool bool
  | PInt int
  | PStr string
  | PList "pyval list"
  | PTuple "pyval list"
  | PDict "(pykey \<times> pyval) list"

type_synonym pydict = "(pykey \<times> pyval) list"

datatype py_error = TypeError | KeyError

fun wf_val :: "pyval \<Rightarrow> bool"
  and wf_vals :: "pyval list \<Rightarrow> bool"
  and wf_items :: "pydict \<Rightarrow> bool" where
  "wf_val (PList xs) = wf_vals xs"
| "wf_val (PTuple xs) = wf_vals xs"
| "wf_val (PDict kvs) = (distinct (map fst kvs) \<and> wf_items kvs)"
| "wf_val v = True"
| "wf_vals [] = True"
| "wf_vals (x # xs) = (wf_val x \<and> wf_vals xs)"
| "wf_items [] = True"
| "wf_items ((k, v) # kvs) = (wf_val v \<and> wf_items kvs)"

subsection \<open>Dictionary operations\<close>

definition dict_get :: "pydict \<Rightarrow> pykey \<Rightarrow> pyval option" where
  "dict_get d k = map_of d k"

text \<open>\<^verbatim>\<open>d[k] = v\<close>: an existing key keeps its position, a new key goes to the end.\<close>

fun dict_set :: "pydict \<Rightarrow> pykey \<Rightarrow> pyval \<Rightarrow> pydict" where
  "dict_set [] k v = [(k, v)]"
| "dict_set ((k', v') # d) k v = (if k' = k then (k, v) # d else (k', v') # dict_set d k v)"

subsection \<open>Decimal and hexadecimal digits\<close>

definition hexdigit :: "nat \<Rightarrow> char" where
  "hexdigit n = ''0123456789abcdef'' ! n"

fun dec_nat :: "nat \<Rightarrow> string" where
  "dec_nat n = (if n < 10 then [hexdigit n] else dec_nat (n div 10) @ [hexdigit (n mod 10)])"

declare dec_nat.simps [simp del]

definition dec_int :: "int \<Rightarrow> string" where
  "dec_int i = (if i < 0 then CHR ''-'' # dec_nat (nat (- i)) else dec_nat (nat i))"

definition hex2 :: "nat \<Rightarrow> string" where
  "hex2 n = [hexdigit (n div 16 mod 16), hexdigit (n mod 16)]"

fun join :: "string \<Rightarrow> string list \<Rightarrow> string" where
  "join sep [] = []"
| "join sep [x] = x"
| "join sep (x # y # ys) = x @ sep @ join sep (y # ys)"

subsection \<open>\<^verbatim>\<open>str()\<close> and \<^verbatim>\<open>repr()\<close>\<close>

definition squote :: char where "squote = CHR 0x27"
definition dquote :: char where "dquote = CHR 0x22"
definition bslash :: char where "bslash = CHR 0x5C"

definition repr_char :: "char \<Rightarrow> char \<Rightarrow> string" where
  "repr_char quote c =
     (let n = (of_char c :: nat) in
      if c = quote \<or> c = bslash then [bslash, c]
      else if n = 9 then [bslash, CHR ''t'']
      else if n = 10 then [bslash, CHR ''n'']
      else if n = 13 then [bslash, CHR ''r'']
      else if n < 32 \<or> n = 127 then [bslash, CHR ''x''] @ hex2 n
      else if n < 127 then [c]
      else if n \<le> 160 \<or> n = 173 then [bslash, CHR ''x''] @ hex2 n
      else [c])"

definition repr_str :: "string \<Rightarrow> string" where
  "repr_str s =
     (let quote = (if squote \<in> set s \<and> dquote \<notin> set s then dquote else squote)
      in quote # concat (map (repr_char quote) s) @ [quote])"

definition repr_key :: "pykey \<Rightarrow> string" where
  "repr_key k = (case k of KStr s \<Rightarrow> repr_str s | KInt i \<Rightarrow> dec_int i)"

fun py_repr :: "pyval \<Rightarrow> string"
  and py_repr_list :: "pyval list \<Rightarrow> string list"
  and py_repr_items :: "pydict \<Rightarrow> string list" where
  "py_repr PNone = ''None''"
| "py_repr (PBool b) = (if b then ''True'' else ''False'')"
| "py_repr (PInt i) = dec_int i"
| "py_repr (PStr s) = repr_str s"
| "py_repr (PList xs) = ''['' @ join '', '' (py_repr_list xs) @ '']''"
| "py_repr (PTuple xs) =
     ''('' @ join '', '' (py_repr_list xs) @ (if length xs = 1 then '','' else []) @ '')''"
| "py_repr (PDict kvs) = ''{'' @ join '', '' (py_repr_items kvs) @ ''}''"
| "py_repr_list [] = []"
| "py_repr_list (x # xs) = py_repr x # py_repr_list xs"
| "py_repr_items [] = []"
| "py_repr_items ((k, v) # kvs) = (repr_key k @ '': '' @ py_repr v) # py_repr_items kvs"

definition py_str :: "pyval \<Rightarrow> string" where
  "py_str v = (case v of PStr s \<Rightarrow> s | _ \<Rightarrow> py_repr v)"

subsection \<open>Hashable values as dictionary keys\<close>

text \<open>
  A \<^verbatim>\<open>list\<close> or a \<^verbatim>\<open>dict\<close> is unhashable.  Python compares keys with \<^verbatim>\<open>==\<close>, under
  which \<^verbatim>\<open>True == 1\<close> and \<^verbatim>\<open>False == 0\<close>; \<open>hash_key\<close> maps equal keys to one value.
\<close>

fun hashable :: "pyval \<Rightarrow> bool" where
  "hashable (PList xs) = False"
| "hashable (PDict kvs) = False"
| "hashable (PTuple xs) = list_all hashable xs"
| "hashable v = True"

fun hash_key :: "pyval \<Rightarrow> pyval" where
  "hash_key (PBool b) = PInt (if b then 1 else 0)"
| "hash_key (PTuple xs) = PTuple (map hash_key xs)"
| "hash_key v = v"

section \<open>\<^verbatim>\<open>json.dumps(entry, sort_keys=True)\<close>\<close>

definition json_char :: "char \<Rightarrow> string" where
  "json_char c =
     (let n = (of_char c :: nat) in
      if c = dquote then [bslash, dquote]
      else if c = bslash then [bslash, bslash]
      else if n = 10 then [bslash, CHR ''n'']
      else if n = 13 then [bslash, CHR ''r'']
      else if n = 9 then [bslash, CHR ''t'']
      else if n = 8 then [bslash, CHR ''b'']
      else if n = 12 then [bslash, CHR ''f'']
      else if n < 32 \<or> 126 < n then [bslash, CHR ''u'', CHR ''0'', CHR ''0''] @ hex2 n
      else [c])"

definition json_string :: "string \<Rightarrow> string" where
  "json_string s = dquote # concat (map json_char s) @ [dquote]"

definition json_key :: "pykey \<Rightarrow> string" where
  "json_key k = (case k of KStr s \<Rightarrow> json_string s | KInt i \<Rightarrow> dquote # dec_int i @ [dquote])"

text \<open>
  \<^verbatim>\<open>sorted(dct.items())\<close>: keys of one type are ordered (strings by code point, integers
  by value); comparing an \<^verbatim>\<open>int\<close> key with a \<^verbatim>\<open>str\<close> key raises \<^verbatim>\<open>TypeError\<close>.
\<close>

definition sort_items :: "pydict \<Rightarrow> pydict option" where
  "sort_items kvs =
     (if list_all (\<lambda>kv. is_KStr (fst kv)) kvs then Some (sort_key (\<lambda>kv. un_KStr (fst kv)) kvs)
      else if list_all (\<lambda>kv. is_KInt (fst kv)) kvs then Some (sort_key (\<lambda>kv. un_KInt (fst kv)) kvs)
      else None)"

lemma sum_list_insort_key:
  "sum_list (map f (insort_key g x xs)) = f x + sum_list (map f xs)"
  for f :: "'a \<Rightarrow> nat"
  by (induction xs) auto

lemma sum_list_sort_key:
  "sum_list (map f (sort_key g xs)) = sum_list (map f xs)"
  for f :: "'a \<Rightarrow> nat"
  by (induction xs) (auto simp: sum_list_insort_key)

lemma size_list_sort_key: "size_list f (sort_key g xs) = size_list f xs"
  by (simp add: size_list_conv_sum_list sum_list_sort_key)

lemma size_list_sort_items: "sort_items kvs = Some its \<Longrightarrow> size_list f its = size_list f kvs"
  by (auto simp: sort_items_def size_list_sort_key split: if_splits)

function json_dumps :: "pyval \<Rightarrow> py_error + string"
  and json_list :: "pyval list \<Rightarrow> py_error + string list"
  and json_items :: "pydict \<Rightarrow> py_error + string list" where
  "json_dumps PNone = Inr ''null''"
| "json_dumps (PBool b) = Inr (if b then ''true'' else ''false'')"
| "json_dumps (PInt i) = Inr (dec_int i)"
| "json_dumps (PStr s) = Inr (json_string s)"
| "json_dumps (PList xs) =
     (case json_list xs of Inl e \<Rightarrow> Inl e | Inr ps \<Rightarrow> Inr (''['' @ join '', '' ps @ '']''))"
| "json_dumps (PTuple xs) =
     (case json_list xs of Inl e \<Rightarrow> Inl e | Inr ps \<Rightarrow> Inr (''['' @ join '', '' ps @ '']''))"
| "json_dumps (PDict kvs) =
     (case sort_items kvs of
        None \<Rightarrow> Inl TypeError
      | Some its \<Rightarrow>
          (case json_items its of Inl e \<Rightarrow> Inl e | Inr ps \<Rightarrow> Inr (''{'' @ join '', '' ps @ ''}'')))"
| "json_list [] = Inr []"
| "json_list (x # xs) =
     (case json_dumps x of
        Inl e \<Rightarrow> Inl e
      | Inr p \<Rightarrow> (case json_list xs of Inl e \<Rightarrow> Inl e | Inr ps \<Rightarrow> Inr (p # ps)))"
| "json_items [] = Inr []"
| "json_items ((k, v) # kvs) =
     (case json_dumps v of
        Inl e \<Rightarrow> Inl e
      | Inr p \<Rightarrow>
          (case json_items kvs of
             Inl e \<Rightarrow> Inl e
           | Inr ps \<Rightarrow> Inr ((json_key k @ '': '' @ p) # ps)))"
  by pat_completeness auto

termination
proof (relation "measure (\<lambda>x. case x of
          Inl v \<Rightarrow> size v
        | Inr (Inl xs) \<Rightarrow> size_list size xs
        | Inr (Inr kvs) \<Rightarrow> size_list (size_prod (\<lambda>_. 0) size) kvs)", goal_cases)
  case (4 kvs its)
  then show ?case by (simp add: size_list_sort_items)
qed auto

section \<open>\<^verbatim>\<open>hashlib.sha256(...).hexdigest()\<close>\<close>

type_synonym u32 = "32 word"
type_synonym byte = "8 word"

definition rotr :: "nat \<Rightarrow> u32 \<Rightarrow> u32" where
  "rotr n x = drop_bit n x OR push_bit (32 - n) x"

definition Ch :: "u32 \<Rightarrow> u32 \<Rightarrow> u32 \<Rightarrow> u32" where
  "Ch x y z = (x AND y) XOR (NOT x AND z)"

definition Maj :: "u32 \<Rightarrow> u32 \<Rightarrow> u32 \<Rightarrow> u32" where
  "Maj x y z = (x AND y) XOR (x AND z) XOR (y AND z)"

definition Sigma0 :: "u32 \<Rightarrow> u32" where
  "Sigma0 x = rotr 2 x XOR rotr 13 x XOR rotr 22 x"

definition Sigma1 :: "u32 \<Rightarrow> u32" where
  "Sigma1 x = rotr 6 x XOR rotr 11 x XOR rotr 25 x"

definition sigma0 :: "u32 \<Rightarrow> u32" where
  "sigma0 x = rotr 7 x XOR rotr 18 x XOR drop_bit 3 x"

definition sigma1 :: "u32 \<Rightarrow> u32" where
  "sigma1 x = rotr 17 x XOR rotr 19 x XOR drop_bit 10 x"

text \<open>The sixty-four round constants, four to a row.\<close>

definition K256 :: "u32 list" where
  "K256 = concat [
     [0x428a2f98, 0x71374491, 0xb5c0fbcf, 0xe9b5dba5],
     [0x3956c25b, 0x59f111f1, 0x923f82a4, 0xab1c5ed5],
     [0xd807aa98, 0x12835b01, 0x243185be, 0x550c7dc3],
     [0x72be5d74, 0x80deb1fe, 0x9bdc06a7, 0xc19bf174],
     [0xe49b69c1, 0xefbe4786, 0x0fc19dc6, 0x240ca1cc],
     [0x2de92c6f, 0x4a7484aa, 0x5cb0a9dc, 0x76f988da],
     [0x983e5152, 0xa831c66d, 0xb00327c8, 0xbf597fc7],
     [0xc6e00bf3, 0xd5a79147, 0x06ca6351, 0x14292967],
     [0x27b70a85, 0x2e1b2138, 0x4d2c6dfc, 0x53380d13],
     [0x650a7354, 0x766a0abb, 0x81c2c92e, 0x92722c85],
     [0xa2bfe8a1, 0xa81a664b, 0xc24b8b70, 0xc76c51a3],
     [0xd192e819, 0xd6990624, 0xf40e3585, 0x106aa070],
     [0x19a4c116, 0x1e376c08, 0x2748774c, 0x34b0bcb5],
     [0x391c0cb3, 0x4ed8aa4a, 0x5b9cca4f, 0x682e6ff3],
     [0x748f82ee, 0x78a5636f, 0x84c87814, 0x8cc70208],
     [0x90befffa, 0xa4506ceb, 0xbef9a3f7, 0xc67178f2]]"

definition H256 :: "u32 list" where
  "H256 = [0x6a09e667, 0xbb67ae85, 0x3c6ef372, 0xa54ff53a,
           0x510e527f, 0x9b05688c, 0x1f83d9ab, 0x5be0cd19]"

text \<open>The message schedule; \<open>win\<close> holds the last sixteen words, oldest first.\<close>

fun schedule :: "nat \<Rightarrow> u32 list \<Rightarrow> u32 list" where
  "schedule 0 win = []"
| "schedule (Suc n) win =
     (let w = sigma1 (win ! 14) + win ! 9 + sigma0 (win ! 1) + win ! 0
      in w # schedule n (tl win @ [w]))"

fun rounds :: "u32 list \<Rightarrow> u32 list \<Rightarrow> u32 list \<Rightarrow> u32 list" where
  "rounds (k # ks) (w # ws) [a, b, c, d, e, f, g, h] =
     (let t1 = h + Sigma1 e + Ch e f g + k + w;
          t2 = Sigma0 a + Maj a b c
      in rounds ks ws [t1 + t2, a, b, c, d + t1, e, f, g])"
| "rounds ks ws st = st"

definition be32 :: "byte list \<Rightarrow> u32" where
  "be32 bs = foldl (\<lambda>acc b. push_bit 8 acc OR ucast b) 0 bs"

fun words_of :: "nat \<Rightarrow> byte list \<Rightarrow> u32 list" where
  "words_of 0 bs = []"
| "words_of (Suc n) bs = be32 (take 4 bs) # words_of n (drop 4 bs)"

definition compress :: "u32 list \<Rightarrow> byte list \<Rightarrow> u32 list" where
  "compress st block =
     (let w16 = words_of 16 block;
          ws = w16 @ schedule 48 w16
      in map2 (+) st (rounds K256 ws st))"

fun blocks :: "nat \<Rightarrow> byte list \<Rightarrow> byte list list" where
  "blocks 0 bs = []"
| "blocks (Suc n) bs = take 64 bs # blocks n (drop 64 bs)"

definition pad :: "byte list \<Rightarrow> byte list" where
  "pad m =
     (let l = length m;
          len = (of_nat (8 * l) :: 64 word)
      in m @ [0x80] @ replicate ((119 - l mod 64) mod 64) 0 @
         map (\<lambda>i. ucast (drop_bit (8 * (7 - i)) len)) [0..<8])"

definition sha256 :: "byte list \<Rightarrow> u32 list" where
  "sha256 m = (let p = pad m in foldl compress H256 (blocks (length p div 64) p))"

definition hex32 :: "u32 \<Rightarrow> string" where
  "hex32 w = map (\<lambda>i. hexdigit (unat (drop_bit (4 * (7 - i)) w AND 0xf))) [0..<8]"

definition hexdigest :: "byte list \<Rightarrow> string" where
  "hexdigest m = concat (map hex32 (sha256 m))"

text \<open>\<^verbatim>\<open>s.encode('utf-8')\<close> for code points below 256.\<close>

definition utf8_char :: "char \<Rightarrow> byte list" where
  "utf8_char c =
     (let n = (of_char c :: nat) in
      if n < 128 then [of_nat n] else [of_nat (192 + n div 64), of_nat (128 + n mod 64)])"

definition utf8 :: "string \<Rightarrow> byte list" where
  "utf8 s = concat (map utf8_char s)"

section \<open>The logger and its store\<close>

text \<open>
  Log entries are mutable \<^verbatim>\<open>dict\<close> objects that \<^verbatim>\<open>audit_log\<close> holds by reference, so
  the entries live in an explicit heap and \<^verbatim>\<open>audit_log\<close> is a list of addresses.
  \<open>next_addr\<close> is the first address never allocated; \<open>stdout\<close> collects what
  \<^verbatim>\<open>print\<close> writes, one event per call (the wording of a line is not modelled, its
  arguments are).  Nested values (\<^verbatim>\<open>input_data\<close>) are stored inline: the class never
  mutates them.
\<close>

type_synonym addr = nat

type_synonym counts = "(pyval \<times> (string \<times> nat) list) list"

datatype printed =
    Logged string string
  | IntegrityFailure
  | SummaryHeader
  | GroupLine pyval "(string \<times> nat) list"

record logger_state =
  model_id :: string
  audit_log :: "addr list"
  heap :: "addr \<Rightarrow> pydict"
  next_addr :: addr
  stdout :: "printed list"

datatype pyret = ReturnsFalse | ReturnsNone

abbreviation k_timestamp :: pykey where "k_timestamp \<equiv> KStr ''timestamp''"
abbreviation k_model_id :: pykey where "k_model_id \<equiv> KStr ''model_id''"
abbreviation k_input_data :: pykey where "k_input_data \<equiv> KStr ''input_data''"
abbreviation k_prediction_output :: pykey where "k_prediction_output \<equiv> KStr ''prediction_output''"
abbreviation k_sensitive_group :: pykey where "k_sensitive_group \<equiv> KStr ''sensitive_group''"
abbreviation k_hash :: pykey where "k_hash \<equiv> KStr ''hash''"

text \<open>\<^verbatim>\<open>EthosAuditLogger.__init__\<close>\<close>

definition init_logger :: "string \<Rightarrow> logger_state" where
  "init_logger m =
     \<lparr>model_id = m, audit_log = [], heap = (\<lambda>_. []), next_addr = 0, stdout = []\<rparr>"

definition alloc :: "pydict \<Rightarrow> logger_state \<Rightarrow> addr \<times> logger_state" where
  "alloc d s = (next_addr s, s\<lparr>heap := (heap s)(next_addr s := d), next_addr := Suc (next_addr s)\<rparr>)"

definition setitem :: "addr \<Rightarrow> pykey \<Rightarrow> pyval \<Rightarrow> logger_state \<Rightarrow> logger_state" where
  "setitem a k v s = s\<lparr>heap := (heap s)(a := dict_set (heap s a) k v)\<rparr>"

definition print :: "printed \<Rightarrow> logger_state \<Rightarrow> logger_state" where
  "print x s = s\<lparr>stdout := stdout s @ [x]\<rparr>"

text \<open>\<^verbatim>\<open>_create_log_entry\<close>; \<open>now\<close> is \<^verbatim>\<open>int(time.time() * 1000)\<close>.\<close>

definition log_entry :: "string \<Rightarrow> int \<Rightarrow> pydict \<Rightarrow> pyval \<Rightarrow> string \<Rightarrow> pydict" where
  "log_entry m now input_data prediction user_group =
     [(k_timestamp, PInt now),
      (k_model_id, PStr m),
      (k_input_data, PDict input_data),
      (k_prediction_output, prediction),
      (k_sensitive_group, PStr user_group),
      (k_hash, PStr [])]"

definition create_log_entry ::
  "logger_state \<Rightarrow> int \<Rightarrow> pydict \<Rightarrow> pyval \<Rightarrow> string \<Rightarrow> addr \<times> logger_state" where
  "create_log_entry s now input_data prediction user_group =
     alloc (log_entry (model_id s) now input_data prediction user_group) s"

text \<open>\<^verbatim>\<open>_generate_verifiable_hash\<close>\<close>

definition generate_verifiable_hash :: "pydict \<Rightarrow> py_error + string" where
  "generate_verifiable_hash entry =
     (case json_dumps (PDict entry) of
        Inl e \<Rightarrow> Inl e
      | Inr canonical_string \<Rightarrow> Inr (hexdigest (utf8 canonical_string)))"

definition log_prediction ::
  "logger_state \<Rightarrow> int \<Rightarrow> pydict \<Rightarrow> pyval \<Rightarrow> string \<Rightarrow> (py_error + unit) \<times> logger_state" where
  "log_prediction s now input_data prediction user_group =
     (let (entry, s1) = create_log_entry s now input_data prediction user_group
      in case generate_verifiable_hash (heap s1 entry) of
           Inl e \<Rightarrow> (Inl e, s1)
         | Inr h \<Rightarrow>
             (let s2 = setitem entry k_hash (PStr h) s1;
                  s3 = s2\<lparr>audit_log := audit_log s2 @ [entry]\<rparr>
              in (Inr (), print (Logged user_group (take 10 h)) s3)))"

text \<open>The first loop of \<^verbatim>\<open>run_drift_check\<close>; \<open>Inr True\<close> when it runs to its end.\<close>

fun integrity_loop :: "addr list \<Rightarrow> logger_state \<Rightarrow> (py_error + bool) \<times> logger_state" where
  "integrity_loop [] s = (Inr True, s)"
| "integrity_loop (entry # logs) s =
     (case dict_get (heap s entry) k_hash of
        None \<Rightarrow> (Inl KeyError, s)
      | Some stored_hash \<Rightarrow>
          (let (entry_copy, s1) = alloc (heap s entry) s;
               s2 = setitem entry_copy k_hash (PStr []) s1
           in case generate_verifiable_hash (heap s2 entry_copy) of
                Inl e \<Rightarrow> (Inl e, s2)
              | Inr re_calculated_hash \<Rightarrow>
                  if stored_hash \<noteq> PStr re_calculated_hash
                  then (Inr False, print IntegrityFailure s2)
                  else integrity_loop logs s2))"

text \<open>The dictionary of dictionaries \<^verbatim>\<open>prediction_counts\<close>, keys compared as Python does.\<close>

fun group_in :: "counts \<Rightarrow> pyval \<Rightarrow> bool" where
  "group_in [] g = False"
| "group_in ((g', c) # pc) g = (hash_key g' = hash_key g \<or> group_in pc g)"

fun counts_update ::
  "counts \<Rightarrow> pyval \<Rightarrow> ((string \<times> nat) list \<Rightarrow> (string \<times> nat) list) \<Rightarrow> counts" where
  "counts_update [] g f = []"
| "counts_update ((g', c) # pc) g f =
     (if hash_key g' = hash_key g then (g', f c) # pc else (g', c) # counts_update pc g f)"

fun inner_get :: "(string \<times> nat) list \<Rightarrow> string \<Rightarrow> nat \<Rightarrow> nat" where
  "inner_get [] k dflt = dflt"
| "inner_get ((k', n) # c) k dflt = (if k' = k then n else inner_get c k dflt)"

fun inner_set :: "(string \<times> nat) list \<Rightarrow> string \<Rightarrow> nat \<Rightarrow> (string \<times> nat) list" where
  "inner_set [] k n = [(k, n)]"
| "inner_set ((k', n') # c) k n = (if k' = k then (k, n) # c else (k', n') # inner_set c k n)"

definition count_prediction :: "counts \<Rightarrow> pyval \<Rightarrow> pyval \<Rightarrow> counts" where
  "count_prediction prediction_counts grp prediction =
     (let pc1 = (if \<not> group_in prediction_counts grp
                 then prediction_counts @ [(grp, [])] else prediction_counts);
          pred_key = py_str prediction
      in counts_update pc1 grp (\<lambda>c. inner_set c pred_key (inner_get c pred_key 0 + 1)))"

text \<open>The second loop of \<^verbatim>\<open>run_drift_check\<close>.\<close>

fun drift_loop :: "addr list \<Rightarrow> logger_state \<Rightarrow> counts \<Rightarrow> py_error + counts" where
  "drift_loop [] s prediction_counts = Inr prediction_counts"
| "drift_loop (entry # logs) s prediction_counts =
     (case dict_get (heap s entry) k_sensitive_group of
        None \<Rightarrow> Inl KeyError
      | Some grp \<Rightarrow>
          (case dict_get (heap s entry) k_prediction_output of
             None \<Rightarrow> Inl KeyError
           | Some prediction \<Rightarrow>
               if \<not> hashable grp then Inl TypeError
               else drift_loop logs s (count_prediction prediction_counts grp prediction)))"

definition print_summary :: "counts \<Rightarrow> logger_state \<Rightarrow> logger_state" where
  "print_summary prediction_counts s =
     s\<lparr>stdout := stdout s @ SummaryHeader # map (\<lambda>(grp, c). GroupLine grp c)
                                                prediction_counts\<rparr>"

definition run_drift_check ::
  "logger_state \<Rightarrow> addr list option \<Rightarrow> (py_error + pyret) \<times> logger_state" where
  "run_drift_check s historical_logs =
     (let logs = (case historical_logs of Some l \<Rightarrow> l | None \<Rightarrow> audit_log s)
      in case integrity_loop logs s of
           (Inl e, s1) \<Rightarrow> (Inl e, s1)
         | (Inr False, s1) \<Rightarrow> (Inr ReturnsFalse, s1)
         | (Inr True, s1) \<Rightarrow>
             (case drift_loop logs s1 [] of
                Inl e \<Rightarrow> (Inl e, s1)
              | Inr prediction_counts \<Rightarrow> (Inr ReturnsNone, print_summary prediction_counts s1)))"

section \<open>Notions used to state the properties\<close>

subsection \<open>What the loops compute, on the records themselves\<close>

text \<open>
  \<open>entry_check\<close> is the verdict of one iteration of the hash check on one record:
  \<open>Inr True\<close> when the stored hash differs from the digest recomputed with the hash
  cleared (the record is tampered), \<open>Inr False\<close> when they agree, \<open>Inl\<close> when the
  iteration raises.  \<open>first_verdict\<close> runs it over a list of records the way the loop
  does; \<open>summarize\<close> is the second loop and \<open>check_outcome\<close> the value returned and
  the lines printed by one call.  The auxiliary facts show that \<^verbatim>\<open>run_drift_check\<close>, which
  works on the heap, computes exactly these.
\<close>

definition entry_check :: "pydict \<Rightarrow> py_error + bool" where
  "entry_check e =
     (case dict_get e k_hash of
        None \<Rightarrow> Inl KeyError
      | Some stored_hash \<Rightarrow>
          (case generate_verifiable_hash (dict_set e k_hash (PStr [])) of
             Inl x \<Rightarrow> Inl x
           | Inr h \<Rightarrow> Inr (stored_hash \<noteq> PStr h)))"

fun first_verdict :: "pydict list \<Rightarrow> py_error + bool" where
  "first_verdict [] = Inr True"
| "first_verdict (e # es) =
     (case entry_check e of
        Inl x \<Rightarrow> Inl x
      | Inr mismatch \<Rightarrow> if mismatch then Inr False else first_verdict es)"

text \<open>The state after one iteration of the hash check has copied the entry at \<open>a\<close>.\<close>

definition copy_state :: "logger_state \<Rightarrow> addr \<Rightarrow> logger_state" where
  "copy_state s a = setitem (next_addr s) k_hash (PStr []) (snd (alloc (heap s a) s))"

subsection \<open>The store\<close>

text \<open>
  \<open>records\<close> are the dictionaries the audit log refers to, in order.  In a well-formed
  state every address of the audit log has been allocated.  \<open>hash_invariant\<close> is the
  invariant of a stored record: its \<^verbatim>\<open>hash\<close> is a string, the hex digest of the
  canonical serialization of the record with \<^verbatim>\<open>hash\<close> set to the empty string.
\<close>

definition records :: "logger_state \<Rightarrow> pydict list" where
  "records s = map (heap s) (audit_log s)"

definition wf_state :: "logger_state \<Rightarrow> bool" where
  "wf_state s = list_all (\<lambda>a. a < next_addr s) (audit_log s)"

definition hash_invariant :: "pydict \<Rightarrow> bool" where
  "hash_invariant e =
     (case dict_get e k_hash of
        Some (PStr h) \<Rightarrow> generate_verifiable_hash (dict_set e k_hash (PStr [])) = Inr h
      | _ \<Rightarrow> False)"

text \<open>The entry with its digest filled in, and the state after a successful \<^verbatim>\<open>log_prediction\<close>.\<close>

definition sealed :: "pydict \<Rightarrow> string \<Rightarrow> pydict" where
  "sealed e h = dict_set e k_hash (PStr h)"

definition append_state :: "logger_state \<Rightarrow> pydict \<Rightarrow> string \<Rightarrow> string \<Rightarrow> logger_state" where
  "append_state s e h g =
     s\<lparr>heap := (heap s)(next_addr s := sealed e h), next_addr := Suc (next_addr s),
       audit_log := audit_log s @ [next_addr s], stdout := stdout s @ [Logged g (take 10 h)]\<rparr>"

fun summarize :: "pydict list \<Rightarrow> counts \<Rightarrow> py_error + counts" where
  "summarize [] pc = Inr pc"
| "summarize (e # es) pc =
     (case dict_get e k_sensitive_group of
        None \<Rightarrow> Inl KeyError
      | Some grp \<Rightarrow>
          (case dict_get e k_prediction_output of
             None \<Rightarrow> Inl KeyError
           | Some prediction \<Rightarrow>
               if \<not> hashable grp then Inl TypeError
               else summarize es (count_prediction pc grp prediction)))"

definition summary_lines :: "counts \<Rightarrow> printed list" where
  "summary_lines pc = SummaryHeader # map (\<lambda>(grp, c). GroupLine grp c) pc"

definition check_outcome :: "pydict list \<Rightarrow> (py_error + pyret) \<times> printed list" where
  "check_outcome es =
     (case first_verdict es of
        Inl x \<Rightarrow> (Inl x, [])
      | Inr ok \<Rightarrow>
          if \<not> ok then (Inr ReturnsFalse, [IntegrityFailure])
          else (case summarize es [] of
                  Inl x \<Rightarrow> (Inl x, [])
                | Inr pc \<Rightarrow> (Inr ReturnsNone, summary_lines pc)))"

text \<open>\<^verbatim>\<open>logs = historical_logs if historical_logs is not None else self.audit_log\<close>\<close>

definition chosen_logs :: "logger_state \<Rightarrow> addr list option \<Rightarrow> addr list" where
  "chosen_logs s historical_logs = (case historical_logs of Some l \<Rightarrow> l | None \<Rightarrow> audit_log s)"

subsection \<open>Concrete logs\<close>

text \<open>
  A record whose stored hash was overwritten with \<^verbatim>\<open>"00"\<close> (a digest has 64 characters,
  so it never matches), a record sealed as \<^verbatim>\<open>log_prediction\<close> seals it, and a log of
  one intact record followed by two forged ones.
\<close>

definition forged :: "string \<Rightarrow> pydict" where
  "forged g = dict_set (log_entry ''m'' 0 [] (PInt 1) g) k_hash (PStr ''00'')"

definition intact :: "string \<Rightarrow> pydict" where
  "intact g =
     (let e = log_entry ''m'' 0 [] (PInt 1) g
      in case generate_verifiable_hash e of Inl x \<Rightarrow> e | Inr h \<Rightarrow> dict_set e k_hash (PStr h))"

definition tampered_log :: logger_state where
  "tampered_log =
     \<lparr>model_id = ''m'', audit_log = [0, 1, 2],
      heap = (\<lambda>_. [])(0 := intact ''A'', 1 := forged ''B'', 2 := forged ''A''),
      next_addr = 3, stdout = []\<rparr>"

subsection \<open>Using the logger\<close>

text \<open>
  One call of a public operation, with any arguments and any outcome, and the states a
  logger can be in after \<^verbatim>\<open>__init__\<close> and any number of such calls.  A list passed as
  \<^verbatim>\<open>historical_logs\<close> is valid when it refers to allocated objects.
\<close>

inductive core_step :: "logger_state \<Rightarrow> logger_state \<Rightarrow> bool" where
  log: "log_prediction s now input_data prediction user_group = (r, s') \<Longrightarrow> core_step s s'"
| drift: "run_drift_check s historical_logs = (r, s') \<Longrightarrow> core_step s s'"


definition valid_logs :: "logger_state \<Rightarrow> addr list option \<Rightarrow> bool" where
  "valid_logs s historical_logs = list_all (\<lambda>a. a < next_addr s) (chosen_logs s historical_logs)"

text \<open>
  A logger after one call at clock reading 100, and after a second call at the earlier
  reading 50 with the empty string as group.
\<close>

definition logged_once :: logger_state where
  "logged_once = snd (log_prediction (init_logger ''m'') 100 [(KStr ''age'', PInt 30)] (PInt 1) ''A'')"

definition logged_twice :: logger_state where
  "logged_twice = snd (log_prediction logged_once 50 [(KStr ''age'', PInt 22)] (PInt 0) '''')"

subsection \<open>The same key-to-value pairs\<close>





subsection \<open>Tallies\<close>

text \<open>
  \<open>tally es g k\<close> counts by hand the records of \<open>es\<close> whose group equals \<open>g\<close> as
  a dictionary key and whose prediction has \<^verbatim>\<open>str\<close> form \<open>k\<close>.  \<open>summary_count\<close> reads
  the count for \<open>g\<close> and \<open>k\<close> off a summary (0 when absent), and \<open>wf_counts\<close> says
  that a summary is a dictionary of non-empty dictionaries of positive counts.
\<close>

definition tally :: "pydict list \<Rightarrow> pyval \<Rightarrow> string \<Rightarrow> nat" where
  "tally es g k =
     length (filter (\<lambda>e. case dict_get e k_sensitive_group of
                            None \<Rightarrow> False
                          | Some g' \<Rightarrow>
                              (case dict_get e k_prediction_output of
                                 None \<Rightarrow> False
                               | Some p \<Rightarrow> hash_key g' = hash_key g \<and> py_str p = k)) es)"

fun counts_find :: "counts \<Rightarrow> pyval \<Rightarrow> (string \<times> nat) list option" where
  "counts_find [] g = None"
| "counts_find ((g', c) # pc) g = (if hash_key g' = hash_key g then Some c else counts_find pc g)"

definition summary_count :: "counts \<Rightarrow> pyval \<Rightarrow> string \<Rightarrow> nat" where
  "summary_count pc g k = (case counts_find pc g of None \<Rightarrow> 0 | Some c \<Rightarrow> inner_get c k 0)"

definition wf_inner :: "(string \<times> nat) list \<Rightarrow> bool" where
  "wf_inner c = (distinct (map fst c) \<and> list_all (\<lambda>kn. 0 < snd kn) c)"

definition wf_counts :: "counts \<Rightarrow> bool" where
  "wf_counts pc =
     (distinct (map (\<lambda>gc. hash_key (fst gc)) pc) \<and> list_all (\<lambda>gc. snd gc \<noteq> [] \<and> wf_inner (snd gc)) pc)"

text \<open>The demonstration at the end of the module; the clock readings are inputs.\<close>

definition demo_logger :: logger_state where
  "demo_logger =
     (let logger = init_logger ''CreditScoreV1'';
          logger = snd (log_prediction logger 1 [(KStr ''age'', PInt 30), (KStr ''income'', PInt 60000)] (PInt 1) ''A'');
          logger = snd (log_prediction logger 2 [(KStr ''age'', PInt 55), (KStr ''income'', PInt 120000)] (PInt 1) ''B'');
          logger = snd (log_prediction logger 3 [(KStr ''age'', PInt 22), (KStr ''income'', PInt 35000)] (PInt 0) ''A'');
          logger = snd (log_prediction logger 4 [(KStr ''age'', PInt 40), (KStr ''income'', PInt 40000)] (PInt 0) ''B'');
          logger = snd (log_prediction logger 5 [(KStr ''age'', PInt 33), (KStr ''income'', PInt 45000)] (PInt 1) ''B'')
      in logger)"





section \<open>Auxiliary facts\<close>

lemma copy_state_simps [simp]:
  "audit_log (copy_state s a) = audit_log s"
  "model_id (copy_state s a) = model_id s"
  "stdout (copy_state s a) = stdout s"
  "next_addr (copy_state s a) = Suc (next_addr s)"
  "heap (copy_state s a) (next_addr s) = dict_set (heap s a) k_hash (PStr [])"
  "b \<noteq> next_addr s \<Longrightarrow> heap (copy_state s a) b = heap s b"
  by (simp_all add: copy_state_def setitem_def alloc_def)

lemma print_simps [simp]:
  "audit_log (print x s) = audit_log s"
  "model_id (print x s) = model_id s"
  "stdout (print x s) = stdout s @ [x]"
  "next_addr (print x s) = next_addr s"
  "heap (print x s) = heap s"
  by (simp_all add: print_def)

lemma integrity_loop_Cons:
  "integrity_loop (a # logs) s =
     (case entry_check (heap s a) of
        Inl x \<Rightarrow> (Inl x, if dict_get (heap s a) k_hash = None then s else copy_state s a)
      | Inr mismatch \<Rightarrow>
          if mismatch then (Inr False, print IntegrityFailure (copy_state s a))
          else integrity_loop logs (copy_state s a))"
  by (auto simp: entry_check_def copy_state_def setitem_def alloc_def Let_def
      split: option.splits sum.splits)

declare integrity_loop.simps(2) [simp del]

lemma integrity_loop_frame:
  "integrity_loop logs s = (r, s') \<Longrightarrow>
     audit_log s' = audit_log s \<and> model_id s' = model_id s \<and> next_addr s \<le> next_addr s' \<and>
     (\<forall>a<next_addr s. heap s' a = heap s a) \<and>
     stdout s' = stdout s @ (if r = Inr False then [IntegrityFailure] else [])"
proof (induction logs arbitrary: s)
  case Nil
  then show ?case by auto
next
  case (Cons a logs)
  show ?case
  proof (cases "entry_check (heap s a)")
    case (Inl x)
    with Cons.prems show ?thesis
      by (auto simp: integrity_loop_Cons split: if_splits)
  next
    case (Inr mismatch)
    show ?thesis
    proof (cases mismatch)
      case True
      with Inr Cons.prems show ?thesis
        by (auto simp: integrity_loop_Cons)
    next
      case False
      with Inr Cons.prems have "integrity_loop logs (copy_state s a) = (r, s')"
        by (simp add: integrity_loop_Cons)
      from Cons.IH [OF this] show ?thesis
        by auto
    qed
  qed
qed

lemma integrity_loop_result:
  "\<forall>a\<in>set logs. a < next_addr s \<Longrightarrow>
   fst (integrity_loop logs s) = first_verdict (map (heap s) logs)"
proof (induction logs arbitrary: s)
  case Nil
  then show ?case by simp
next
  case (Cons a logs)
  have same: "map (heap (copy_state s a)) logs = map (heap s) logs"
    using Cons.prems by (intro map_cong) auto
  have "\<forall>b\<in>set logs. b < next_addr (copy_state s a)"
    using Cons.prems by auto
  from Cons.IH [OF this] same show ?case
    by (auto simp: integrity_loop_Cons split: sum.splits)
qed

lemma log_prediction_eq:
  "log_prediction s now i p g =
     (let e = log_entry (model_id s) now i p g
      in case generate_verifiable_hash e of
           Inl x \<Rightarrow> (Inl x, snd (alloc e s))
         | Inr h \<Rightarrow> (Inr (), append_state s e h g))"
  by (auto simp: log_prediction_def create_log_entry_def alloc_def setitem_def print_def
      append_state_def sealed_def Let_def split: sum.splits)

lemma alloc_simps [simp]:
  "fst (alloc d s) = next_addr s"
  "audit_log (snd (alloc d s)) = audit_log s"
  "model_id (snd (alloc d s)) = model_id s"
  "stdout (snd (alloc d s)) = stdout s"
  "next_addr (snd (alloc d s)) = Suc (next_addr s)"
  "heap (snd (alloc d s)) (next_addr s) = d"
  "b \<noteq> next_addr s \<Longrightarrow> heap (snd (alloc d s)) b = heap s b"
  by (simp_all add: alloc_def)

lemma append_state_simps [simp]:
  "audit_log (append_state s e h g) = audit_log s @ [next_addr s]"
  "model_id (append_state s e h g) = model_id s"
  "stdout (append_state s e h g) = stdout s @ [Logged g (take 10 h)]"
  "next_addr (append_state s e h g) = Suc (next_addr s)"
  "heap (append_state s e h g) (next_addr s) = sealed e h"
  "b \<noteq> next_addr s \<Longrightarrow> heap (append_state s e h g) b = heap s b"
  by (simp_all add: append_state_def)

lemma dict_get_log_entry_hash [simp]:
  "dict_get (sealed (log_entry m now i p g) h) k_hash = Some (PStr h)"
  by (simp add: sealed_def log_entry_def dict_get_def)

lemma unseal_log_entry [simp]:
  "dict_set (sealed (log_entry m now i p g) h) k_hash (PStr []) = log_entry m now i p g"
  by (simp add: sealed_def log_entry_def)


lemma hash_invariant_iff: "hash_invariant e \<longleftrightarrow> entry_check e = Inr False"
  by (auto simp: hash_invariant_def entry_check_def split: option.splits pyval.splits sum.splits)

lemma records_frame:
  assumes "wf_state s" "audit_log s' = audit_log s" "\<forall>a<next_addr s. heap s' a = heap s a"
  shows "records s' = records s"
  using assms by (auto simp: records_def wf_state_def list_all_iff)

lemma records_append_state:
  "wf_state s \<Longrightarrow> records (append_state s e h g) = records s @ [sealed e h]"
  by (auto simp: records_def wf_state_def list_all_iff)

lemma wf_state_append_state: "wf_state s \<Longrightarrow> wf_state (append_state s e h g)"
  by (auto simp: wf_state_def list_all_iff less_Suc_eq)

lemma wf_state_mono:
  "wf_state s \<Longrightarrow> audit_log s' = audit_log s \<Longrightarrow> next_addr s \<le> next_addr s' \<Longrightarrow> wf_state s'"
  by (auto simp: wf_state_def list_all_iff)

lemma drift_loop_summarize: "drift_loop logs s pc = summarize (map (heap s) logs) pc"
  by (induction logs arbitrary: pc) (auto split: option.splits)

lemma run_drift_check_alt:
  "run_drift_check s hl =
     (let logs = chosen_logs s hl
      in case integrity_loop logs s of
           (Inl e, s1) \<Rightarrow> (Inl e, s1)
         | (Inr False, s1) \<Rightarrow> (Inr ReturnsFalse, s1)
         | (Inr True, s1) \<Rightarrow>
             (case drift_loop logs s1 [] of
                Inl e \<Rightarrow> (Inl e, s1)
              | Inr prediction_counts \<Rightarrow> (Inr ReturnsNone, print_summary prediction_counts s1)))"
  by (simp add: run_drift_check_def chosen_logs_def)

lemma run_drift_check_frame:
  assumes "run_drift_check s hl = (r, s')"
  shows "audit_log s' = audit_log s \<and> model_id s' = model_id s \<and> next_addr s \<le> next_addr s' \<and>
         (\<forall>a<next_addr s. heap s' a = heap s a)"
proof -
  obtain v s1 where loop: "integrity_loop (chosen_logs s hl) s = (v, s1)"
    by (cases "integrity_loop (chosen_logs s hl) s")
  note fr = integrity_loop_frame [OF loop]
  have "audit_log s' = audit_log s1 \<and> model_id s' = model_id s1 \<and> next_addr s' = next_addr s1 \<and>
        heap s' = heap s1"
    using assms loop
    by (auto simp: run_drift_check_def chosen_logs_def print_summary_def Let_def
        split: sum.splits bool.splits option.splits)
  with fr show ?thesis by simp
qed

lemma run_drift_check_outcome:
  assumes valid: "\<forall>a\<in>set (chosen_logs s hl). a < next_addr s"
    and run: "run_drift_check s hl = (r, s')"
  shows "(r, drop (length (stdout s)) (stdout s')) = check_outcome (map (heap s) (chosen_logs s hl)) \<and>
         take (length (stdout s)) (stdout s') = stdout s"
proof -
  let ?logs = "chosen_logs s hl"
  obtain v s1 where loop: "integrity_loop ?logs s = (v, s1)"
    by (cases "integrity_loop ?logs s")
  note fr = integrity_loop_frame [OF loop]
  have v: "v = first_verdict (map (heap s) ?logs)"
    using integrity_loop_result [OF valid] loop by simp
  have same: "map (heap s1) ?logs = map (heap s) ?logs"
    using valid fr by (intro map_cong) auto
  have ds: "drift_loop ?logs s1 [] = summarize (map (heap s) ?logs) []"
    by (simp only: drift_loop_summarize same)
  have run': "run_drift_check s hl =
      (case v of Inl e \<Rightarrow> (Inl e, s1)
       | Inr ok \<Rightarrow> if \<not> ok then (Inr ReturnsFalse, s1)
           else (case summarize (map (heap s) ?logs) [] of Inl e \<Rightarrow> (Inl e, s1)
                 | Inr pc \<Rightarrow> (Inr ReturnsNone, print_summary pc s1)))"
    unfolding run_drift_check_alt Let_def loop ds [symmetric]
    by (simp split: sum.splits bool.splits)
  show ?thesis
    using run fr v unfolding run' check_outcome_def
    by (auto simp: print_summary_def summary_lines_def split: sum.splits if_splits)
qed

lemma length_rounds: "length (rounds ks ws st) = length st"
  by (induction ks ws st rule: rounds.induct) (simp_all add: Let_def)

lemma length_compress: "length (compress st b) = length st"
  by (simp add: compress_def Let_def length_rounds)

lemma length_foldl_compress: "length (foldl compress st bs) = length st"
  by (induction bs arbitrary: st) (simp_all add: length_compress)

lemma length_sha256: "length (sha256 m) = 8"
  by (simp add: sha256_def Let_def length_foldl_compress H256_def)

lemma length_hex32: "length (hex32 w) = 8"
  by (simp add: hex32_def)

lemma length_concat_hex32: "length (concat (map hex32 ws)) = 8 * length ws"
  by (induction ws) (simp_all add: length_hex32)

lemma length_hexdigest: "length (hexdigest m) = 64"
  by (simp add: hexdigest_def length_concat_hex32 length_sha256)

lemma hexdigest_neq: "length x \<noteq> 64 \<Longrightarrow> x \<noteq> hexdigest m"
  using length_hexdigest by auto

lemmas eval_defs =
  log_prediction_def create_log_entry_def log_entry_def alloc_def setitem_def print_def
  generate_verifiable_hash_def sort_items_def json_key_def json_string_def json_char_def
  dquote_def bslash_def dec_int_def dec_nat.simps hexdigit_def hex2_def init_logger_def
  dict_get_def Let_def run_drift_check_def integrity_loop.simps print_summary_def
  count_prediction_def py_str_def

lemma entry_check_forged: "entry_check (forged g) = Inr True"
  by (simp add: entry_check_def forged_def eval_defs hexdigest_neq)

lemma entry_check_intact: "entry_check (intact g) = Inr False"
  by (simp add: entry_check_def intact_def eval_defs)

lemma first_verdict_stop:
  "i < length es \<Longrightarrow> \<forall>k<i. entry_check (es ! k) = Inr False \<Longrightarrow>
   entry_check (es ! i) = Inr True \<Longrightarrow> first_verdict es = Inr False"
proof (induction es arbitrary: i)
  case Nil
  then show ?case by simp
next
  case (Cons e es)
  show ?case
  proof (cases i)
    case 0
    with Cons.prems show ?thesis by simp
  next
    case (Suc j)
    with Cons.prems have "entry_check e = Inr False" by auto
    moreover have "\<forall>k<j. entry_check (es ! k) = Inr False"
    proof (intro allI impI)
      fix k assume "k < j"
      then have "Suc k < i" using Suc by simp
      with Cons.prems(2) have "entry_check ((e # es) ! Suc k) = Inr False" by blast
      then show "entry_check (es ! k) = Inr False" by simp
    qed
    then have "first_verdict es = Inr False"
      using Cons.IH [of j] Cons.prems Suc by auto
    ultimately show ?thesis by simp
  qed
qed

lemma integrity_loop_append:
  "integrity_loop (xs @ ys) s =
     (case integrity_loop xs s of
        (Inr True, s1) \<Rightarrow> integrity_loop ys s1
      | other \<Rightarrow> other)"
  by (induction xs arbitrary: s) (auto simp: integrity_loop_Cons split: sum.splits)

lemma integrity_loop_take:
  assumes "fst (integrity_loop (take n logs) s) \<noteq> Inr True"
  shows "integrity_loop logs s = integrity_loop (take n logs) s"
proof -
  have "integrity_loop (take n logs @ drop n logs) s = integrity_loop (take n logs) s"
    using assms unfolding integrity_loop_append
    by (cases "integrity_loop (take n logs) s") (auto split: sum.splits bool.splits)
  then show ?thesis by simp
qed

lemma log_prediction_Inl:
  assumes "wf_state s" "log_prediction s now i p g = (Inl x, s')"
  shows "wf_state s' \<and> records s' = records s \<and> audit_log s' = audit_log s \<and>
         stdout s' = stdout s \<and> model_id s' = model_id s \<and>
         generate_verifiable_hash (log_entry (model_id s) now i p g) = Inl x"
proof (cases "generate_verifiable_hash (log_entry (model_id s) now i p g)")
  case (Inl y)
  with assms(2) have s': "y = x" "s' = snd (alloc (log_entry (model_id s) now i p g) s)"
    by (simp_all add: log_prediction_eq)
  have "records s' = records s"
    using assms(1) by (intro records_frame) (simp_all add: s')
  moreover have "wf_state s'"
    using assms(1) by (rule wf_state_mono) (simp_all add: s')
  ultimately show ?thesis using Inl by (simp add: s')
next
  case (Inr h)
  with assms(2) show ?thesis by (simp add: log_prediction_eq)
qed

lemma log_prediction_Inr:
  assumes "log_prediction s now i p g = (Inr u, s')"
  shows "\<exists>h. generate_verifiable_hash (log_entry (model_id s) now i p g) = Inr h \<and>
             s' = append_state s (log_entry (model_id s) now i p g) h g"
  using assms by (cases "generate_verifiable_hash (log_entry (model_id s) now i p g)")
    (simp_all add: log_prediction_eq)

lemma log_prediction_prefix:
  assumes "wf_state s" "log_prediction s now i p g = (r, s')"
  shows "prefix (records s) (records s') \<and> wf_state s'"
proof (cases r)
  case (Inl x)
  with log_prediction_Inl [OF assms(1), of now i p g x s'] assms(2) show ?thesis by simp
next
  case (Inr u)
  with assms(2) have "log_prediction s now i p g = (Inr u, s')" by simp
  from log_prediction_Inr [OF this]
  obtain h where "s' = append_state s (log_entry (model_id s) now i p g) h g" by blast
  then show ?thesis
    using assms(1) by (simp add: records_append_state wf_state_append_state)
qed

lemma run_drift_check_records:
  assumes "wf_state s" "run_drift_check s hl = (r, s')"
  shows "records s' = records s \<and> wf_state s'"
proof -
  note fr = run_drift_check_frame [OF assms(2)]
  have "records s' = records s"
    using assms(1) fr by (intro records_frame) simp_all
  moreover have "wf_state s'"
    using fr by (intro wf_state_mono [OF assms(1)]) simp_all
  ultimately show ?thesis by simp
qed

lemma core_step_prefix:
  assumes "wf_state s" "core_step s s'"
  shows "prefix (records s) (records s') \<and> wf_state s'"
  using assms(2)
proof cases
  case (log now i p g r)
  from log_prediction_prefix [OF assms(1) log] show ?thesis .
next
  case (drift hl r)
  from run_drift_check_records [OF assms(1) drift] show ?thesis by simp
qed

lemma wf_state_init: "wf_state (init_logger m)"
  by (simp add: wf_state_def init_logger_def)




lemma logged_once_eq:
  "log_prediction (init_logger ''m'') 100 [(KStr ''age'', PInt 30)] (PInt 1) ''A'' = (Inr (), logged_once)"
  by (simp add: logged_once_def) (simp add: eval_defs)

lemma logged_twice_eq:
  "log_prediction logged_once 50 [(KStr ''age'', PInt 22)] (PInt 0) '''' = (Inr (), logged_twice)"
  by (simp add: logged_twice_def) (simp add: logged_once_def eval_defs)

lemma wf_logged_once: "wf_state logged_once"
  using log_prediction_prefix [OF wf_state_init logged_once_eq] by simp


lemma length_records_logged_once: "length (records logged_once) = 1"
  by (simp add: records_def logged_once_def eval_defs)


lemma sort_items_log_entry:
  "sort_items (log_entry m now i p g) =
     Some [(k_hash, PStr []), (k_input_data, PDict i), (k_model_id, PStr m),
           (k_prediction_output, p), (k_sensitive_group, PStr g), (k_timestamp, PInt now)]"
  by (simp add: log_entry_def sort_items_def)

lemma json_log_entry_ok:
  "(\<exists>c. json_dumps (PDict (log_entry m now i p g)) = Inr c) \<longleftrightarrow>
   (\<exists>a. json_dumps (PDict i) = Inr a) \<and> (\<exists>b. json_dumps p = Inr b)"
  by (simp add: sort_items_log_entry split: sum.splits)

lemma generate_verifiable_hash_ok:
  "(\<exists>h. generate_verifiable_hash (log_entry m now i p g) = Inr h) \<longleftrightarrow>
   (\<exists>a. json_dumps (PDict i) = Inr a) \<and> (\<exists>b. json_dumps p = Inr b)"
  using json_log_entry_ok [of m now i p g]
  by (auto simp: generate_verifiable_hash_def split: sum.splits)


lemma dict_get_sealed_timestamp:
  "dict_get (sealed (log_entry m now i p g) h) k_timestamp = Some (PInt now)"
  by (simp add: sealed_def log_entry_def dict_get_def)


lemma model_id_logged_once: "model_id logged_once = ''m''"
  by (simp add: logged_once_def eval_defs)

lemma records_logged_once:
  "\<exists>h. records logged_once = [sealed (log_entry ''m'' 100 [(KStr ''age'', PInt 30)] (PInt 1) ''A'') h]"
proof -
  from log_prediction_Inr [OF logged_once_eq]
  obtain h where eq: "logged_once = append_state (init_logger ''m'')
      (log_entry (model_id (init_logger ''m'')) 100 [(KStr ''age'', PInt 30)] (PInt 1) ''A'') h ''A''"
    by blast
  have "records logged_once = records (init_logger ''m'') @
      [sealed (log_entry (model_id (init_logger ''m'')) 100 [(KStr ''age'', PInt 30)] (PInt 1) ''A'') h]"
    by (subst eq) (rule records_append_state [OF wf_state_init])
  moreover have "model_id (init_logger ''m'') = ''m''" "records (init_logger ''m'') = []"
    by (simp_all add: init_logger_def records_def)
  ultimately show ?thesis by auto
qed

lemma records_logged_twice:
  "\<exists>h. records logged_twice = records logged_once @
     [sealed (log_entry ''m'' 50 [(KStr ''age'', PInt 22)] (PInt 0) []) h]"
proof -
  from log_prediction_Inr [OF logged_twice_eq]
  obtain h where eq: "logged_twice = append_state logged_once
      (log_entry (model_id logged_once) 50 [(KStr ''age'', PInt 22)] (PInt 0) []) h []"
    by blast
  have "records logged_twice = records logged_once @
      [sealed (log_entry (model_id logged_once) 50 [(KStr ''age'', PInt 22)] (PInt 0) []) h]"
    by (subst eq) (rule records_append_state [OF wf_logged_once])
  then show ?thesis
    unfolding model_id_logged_once by blast
qed


lemma wf_vals_iff: "wf_vals xs \<longleftrightarrow> (\<forall>x\<in>set xs. wf_val x)"
  by (induction xs) auto









lemma group_in_iff: "group_in pc g \<longleftrightarrow> counts_find pc g \<noteq> None"
  by (induction pc) auto

lemma group_in_set: "group_in pc g \<longleftrightarrow> hash_key g \<in> set (map (\<lambda>gc. hash_key (fst gc)) pc)"
  by (induction pc) auto

lemma counts_find_append:
  "counts_find (pc @ [(g, c)]) g' =
     (case counts_find pc g' of
        Some c' \<Rightarrow> Some c'
      | None \<Rightarrow> if hash_key g = hash_key g' then Some c else None)"
  by (induction pc) auto

lemma counts_find_update:
  "counts_find (counts_update pc g f) g' =
     (if hash_key g = hash_key g' then map_option f (counts_find pc g') else counts_find pc g')"
  by (induction pc) auto

lemma inner_get_set: "inner_get (inner_set c k n) k' d = (if k = k' then n else inner_get c k' d)"
  by (induction c) auto

lemma counts_find_cong: "hash_key g = hash_key g' \<Longrightarrow> counts_find pc g = counts_find pc g'"
  by (induction pc) auto

lemma summary_count_step:
  "summary_count (count_prediction pc g p) g' k =
     summary_count pc g' k + (if hash_key g = hash_key g' \<and> py_str p = k then 1 else 0)"
proof (cases "hash_key g = hash_key g'")
  case True
  from counts_find_cong [OF this, of pc] show ?thesis
    by (auto simp: summary_count_def count_prediction_def Let_def counts_find_update
        counts_find_append group_in_iff inner_get_set True split: option.splits)
next
  case False
  then show ?thesis
    by (auto simp: summary_count_def count_prediction_def Let_def counts_find_update
        counts_find_append group_in_iff inner_get_set split: option.splits)
qed

lemma summarize_tally:
  "summarize es pc = Inr pc' \<Longrightarrow> summary_count pc' g k = summary_count pc g k + tally es g k"
proof (induction es arbitrary: pc)
  case Nil
  then show ?case by (simp add: tally_def)
next
  case (Cons e es)
  from Cons.prems obtain grp p where
    e: "dict_get e k_sensitive_group = Some grp" "dict_get e k_prediction_output = Some p"
    and rest: "summarize es (count_prediction pc grp p) = Inr pc'"
    by (auto split: option.splits if_splits)
  from Cons.IH [OF rest] e show ?case
    by (simp add: summary_count_step tally_def)
qed

lemma map_fst_inner_set:
  "map fst (inner_set c k n) = (if k \<in> set (map fst c) then map fst c else map fst c @ [k])"
  by (induction c k n rule: inner_set.induct) (auto simp: image_iff)

lemma set_inner_set: "set (inner_set c k n) \<subseteq> insert (k, n) (set c)"
  by (induction c k n rule: inner_set.induct) auto

lemma wf_inner_set: "wf_inner c \<Longrightarrow> 0 < n \<Longrightarrow> wf_inner (inner_set c k n)"
  using set_inner_set [of c k n]
  by (auto simp: wf_inner_def map_fst_inner_set list_all_iff)

lemma inner_set_nonempty: "inner_set c k n \<noteq> []"
  by (cases c) (auto split: if_splits)

lemma keys_counts_update:
  "map (\<lambda>gc. hash_key (fst gc)) (counts_update pc g f) = map (\<lambda>gc. hash_key (fst gc)) pc"
  by (induction pc) auto

lemma list_all_counts_update:
  "list_all (\<lambda>gc. Q (snd gc) \<and> Q (f (snd gc))) pc \<Longrightarrow>
   list_all (\<lambda>gc. Q (snd gc)) (counts_update pc g f)"
proof (induction pc)
  case Nil
  show ?case by simp
next
  case (Cons gc pc)
  obtain a b where gc: "gc = (a, b)" by (cases gc)
  from Cons.prems have "list_all (\<lambda>gc. Q (snd gc)) pc"
    by (simp add: list_all_iff)
  with Cons gc show ?case
    by (cases "hash_key a = hash_key g") simp_all
qed

lemma counts_update_new:
  "\<not> group_in pc g \<Longrightarrow> counts_update (pc @ [(g, c)]) g f = pc @ [(g, f c)]"
  by (induction pc) auto

lemma wf_counts_step: "wf_counts pc \<Longrightarrow> wf_counts (count_prediction pc g p)"
proof (cases "group_in pc g")
  case True
  assume wf: "wf_counts pc"
  let ?f = "\<lambda>c. inner_set c (py_str p) (inner_get c (py_str p) 0 + 1)"
  have "list_all (\<lambda>gc. (snd gc \<noteq> [] \<and> wf_inner (snd gc)) \<and>
          (?f (snd gc) \<noteq> [] \<and> wf_inner (?f (snd gc)))) pc"
    using wf by (auto simp: wf_counts_def list_all_iff inner_set_nonempty intro: wf_inner_set)
  then have "list_all (\<lambda>gc. snd gc \<noteq> [] \<and> wf_inner (snd gc)) (counts_update pc g ?f)"
    by (rule list_all_counts_update)
  with wf True show ?thesis
    by (simp add: wf_counts_def count_prediction_def Let_def keys_counts_update)
next
  case False
  assume wf: "wf_counts pc"
  have "wf_inner [(py_str p, Suc 0)]"
    by (simp add: wf_inner_def)
  with wf False show ?thesis
    by (simp add: wf_counts_def count_prediction_def Let_def counts_update_new group_in_set)
qed

lemma summarize_wf: "summarize es pc = Inr pc' \<Longrightarrow> wf_counts pc \<Longrightarrow> wf_counts pc'"
proof (induction es arbitrary: pc)
  case Nil
  then show ?case by simp
next
  case (Cons e es)
  from Cons.prems(1) obtain grp p where
    "summarize es (count_prediction pc grp p) = Inr pc'"
    by (auto split: option.splits if_splits)
  from Cons.IH [OF this wf_counts_step [OF Cons.prems(2)]] show ?case .
qed

lemma first_verdict_all:
  "first_verdict es = Inr True \<Longrightarrow> list_all hash_invariant es"
  by (induction es) (auto simp: hash_invariant_iff split: sum.splits if_splits)

lemma summary_lines_inj: "summary_lines pc = summary_lines pc' \<Longrightarrow> pc = pc'"
proof -
  have "inj (\<lambda>(grp, c). GroupLine grp c)"
    by (auto simp: inj_on_def)
  then show "summary_lines pc = summary_lines pc' \<Longrightarrow> pc = pc'"
    by (simp add: summary_lines_def inj_map_eq_map)
qed

lemma demo_run:
  "fst (run_drift_check demo_logger None) = Inr ReturnsNone"
  "stdout (snd (run_drift_check demo_logger None)) =
     stdout demo_logger @
     summary_lines [(PStr ''A'', [(''1'', 1), (''0'', 1)]), (PStr ''B'', [(''1'', 2), (''0'', 1)])]"
  "valid_logs demo_logger None"
  by (simp_all add: demo_logger_def valid_logs_def chosen_logs_def summary_lines_def eval_defs)






lemma str_key_examples:
  "py_str (PInt 1) = py_str (PStr ''1'')"
  "py_str (PDict [(KStr ''a'', PInt 1), (KStr ''b'', PInt 2)])
     \<noteq> py_str (PDict [(KStr ''b'', PInt 2), (KStr ''a'', PInt 1)])"
  by (simp_all add: py_str_def repr_key_def repr_str_def repr_char_def squote_def dquote_def
      bslash_def dec_int_def dec_nat.simps hexdigit_def)

section \<open>Claims\<close>

text \<open>
  C1 (as the code has it).  The hash check of \<^verbatim>\<open>run_drift_check\<close> returns at the first
  record whose stored hash differs from the recomputed digest: when the records before
  index \<open>i\<close> verify and record \<open>i\<close> does not, one call returns \<^verbatim>\<open>False\<close>, prints a
  single integrity-failure line that names no record, and ends in the very state it
  would reach had the log stopped at \<open>i\<close>; the records after \<open>i\<close> are never looked
  at, tampered or not.
\<close>

theorem check_stops_at_first_mismatch:
  assumes valid: "\<forall>a\<in>set logs. a < next_addr s"
    and i: "i < length logs"
    and before: "\<forall>k<i. entry_check (heap s (logs ! k)) = Inr False"
    and at: "entry_check (heap s (logs ! i)) = Inr True"
    and run: "run_drift_check s (Some logs) = (r, s')"
  shows "r = Inr ReturnsFalse \<and> stdout s' = stdout s @ [IntegrityFailure] \<and>
         run_drift_check s (Some (take (Suc i) logs)) = (r, s')"
proof -
  let ?pre = "take (Suc i) logs"
  have valid': "\<forall>a\<in>set ?pre. a < next_addr s"
    using valid by (auto dest: in_set_takeD)
  have fv: "first_verdict (map (heap s) ?pre) = Inr False"
    using i before at by (intro first_verdict_stop [of i]) auto
  then have stop: "fst (integrity_loop ?pre s) = Inr False"
    using integrity_loop_result [OF valid'] by simp
  then have same: "integrity_loop logs s = integrity_loop ?pre s"
    by (intro integrity_loop_take) simp
  obtain s1 where loop: "integrity_loop ?pre s = (Inr False, s1)"
    using stop by (cases "integrity_loop ?pre s") auto
  have r1: "run_drift_check s (Some logs) = (Inr ReturnsFalse, s1)"
    by (simp add: run_drift_check_alt chosen_logs_def same loop)
  have r2: "run_drift_check s (Some ?pre) = (Inr ReturnsFalse, s1)"
    by (simp add: run_drift_check_alt chosen_logs_def loop)
  from integrity_loop_frame [OF loop] r1 r2 run show ?thesis by simp
qed

theorem check_stops_at_first_mismatch_witness:
  "fst (run_drift_check tampered_log (Some [0, 1, 2])) = Inr ReturnsFalse \<and>
   stdout (snd (run_drift_check tampered_log (Some [0, 1, 2]))) = [IntegrityFailure] \<and>
   run_drift_check tampered_log (Some [0, 1]) = run_drift_check tampered_log (Some [0, 1, 2])"
proof -
  have h: "heap tampered_log 0 = intact ''A''" "heap tampered_log (Suc 0) = forged ''B''"
    "next_addr tampered_log = 3" "stdout tampered_log = []"
    by (simp_all add: tampered_log_def)
  have before: "\<forall>k<1. entry_check (heap tampered_log ([0, 1, 2] ! k)) = Inr False"
    by (simp add: h entry_check_intact)
  have at: "entry_check (heap tampered_log ([0, 1, 2] ! 1)) = Inr True"
    by (simp add: h entry_check_forged)
  from check_stops_at_first_mismatch [of "[0, 1, 2]" tampered_log 1
      "fst (run_drift_check tampered_log (Some [0, 1, 2]))"
      "snd (run_drift_check tampered_log (Some [0, 1, 2]))", OF _ _ before at]
  show ?thesis by (simp add: h)
qed

text \<open>
  C1 as stated fails: records 1 and 2 of \<open>tampered_log\<close> are both tampered, and one
  call prints one failure line and returns \<^verbatim>\<open>False\<close>.
\<close>

theorem second_tampered_record_unreported:
  "entry_check (heap tampered_log 1) = Inr True \<and>
   entry_check (heap tampered_log 2) = Inr True \<and>
   fst (run_drift_check tampered_log None) = Inr ReturnsFalse \<and>
   stdout (snd (run_drift_check tampered_log None)) = [IntegrityFailure]"
proof -
  have h: "heap tampered_log 0 = intact ''A''" "heap tampered_log 1 = forged ''B''"
    "heap tampered_log 2 = forged ''A''"
    by (simp_all add: tampered_log_def)
  have valid: "\<forall>a\<in>set (chosen_logs tampered_log None). a < next_addr tampered_log"
    by (simp add: chosen_logs_def tampered_log_def)
  have "check_outcome (map (heap tampered_log) (chosen_logs tampered_log None)) =
        (Inr ReturnsFalse, [IntegrityFailure])"
    by (simp add: chosen_logs_def check_outcome_def tampered_log_def
        entry_check_intact entry_check_forged)
  with run_drift_check_outcome [OF valid, of "fst (run_drift_check tampered_log None)"
      "snd (run_drift_check tampered_log None)"]
  show ?thesis by (simp add: h entry_check_forged tampered_log_def)
qed





text \<open>
  C4 (as the code has it).  The drift summary is produced only when the call gets past
  the hash check: whenever \<^verbatim>\<open>run_drift_check\<close> returns normally (\<^verbatim>\<open>None\<close>), every
  record of the log carries the hash invariant, and the summary it prints is a
  dictionary of dictionaries (distinct groups, distinct prediction keys, no empty group,
  no zero count) whose count for a group and a key is the number of records with that
  \<^verbatim>\<open>sensitive_group\<close> (compared as Python compares dictionary keys) whose
  \<^verbatim>\<open>str(prediction_output)\<close> is that key.
\<close>

theorem summary_is_tally_when_check_passes:
  assumes valid: "valid_logs s historical_logs"
    and run: "run_drift_check s historical_logs = (Inr ReturnsNone, s')"
  shows "list_all hash_invariant (map (heap s) (chosen_logs s historical_logs)) \<and>
         (\<exists>pc. stdout s' = stdout s @ summary_lines pc \<and> wf_counts pc \<and>
               (\<forall>g k. summary_count pc g k
                        = tally (map (heap s) (chosen_logs s historical_logs)) g k))"
proof -
  let ?es = "map (heap s) (chosen_logs s historical_logs)"
  have v: "\<forall>a\<in>set (chosen_logs s historical_logs). a < next_addr s"
    using valid by (simp add: valid_logs_def list_all_iff)
  from run_drift_check_outcome [OF v run]
  have out: "(Inr ReturnsNone, drop (length (stdout s)) (stdout s')) = check_outcome ?es"
    and pre: "take (length (stdout s)) (stdout s') = stdout s"
    by simp_all
  from out obtain pc where fv: "first_verdict ?es = Inr True"
    and sm: "summarize ?es [] = Inr pc"
    and lines: "drop (length (stdout s)) (stdout s') = summary_lines pc"
    by (auto simp: check_outcome_def split: sum.splits if_splits)
  have "stdout s' = stdout s @ summary_lines pc"
    using pre lines append_take_drop_id [of "length (stdout s)" "stdout s'"] by simp
  moreover have "wf_counts pc"
    using summarize_wf [OF sm] by (simp add: wf_counts_def)
  moreover have "summary_count pc g k = tally ?es g k" for g k
    using summarize_tally [OF sm, of g k] by (simp add: summary_count_def)
  ultimately show ?thesis
    using first_verdict_all [OF fv] by blast
qed

theorem summary_is_tally_when_check_passes_witness:
  "fst (run_drift_check demo_logger None) = Inr ReturnsNone \<and>
   stdout (snd (run_drift_check demo_logger None)) =
     stdout demo_logger @
     summary_lines [(PStr ''A'', [(''1'', 1), (''0'', 1)]), (PStr ''B'', [(''1'', 2), (''0'', 1)])] \<and>
   tally (records demo_logger) (PStr ''A'') ''1'' = 1 \<and>
   tally (records demo_logger) (PStr ''A'') ''0'' = 1 \<and>
   tally (records demo_logger) (PStr ''B'') ''1'' = 2 \<and>
   tally (records demo_logger) (PStr ''B'') ''0'' = 1"
proof -
  let ?s' = "snd (run_drift_check demo_logger None)"
  let ?pc = "[(PStr ''A'', [(''1'', 1), (''0'', 1)]), (PStr ''B'', [(''1'', 2), (''0'', 1 :: nat)])]"
  have run: "run_drift_check demo_logger None = (Inr ReturnsNone, ?s')"
    using demo_run(1) by (simp add: prod_eq_iff)
  from summary_is_tally_when_check_passes [OF demo_run(3) run]
  obtain pc where out: "stdout ?s' = stdout demo_logger @ summary_lines pc"
    and eq: "\<And>g k. summary_count pc g k
               = tally (map (heap demo_logger) (chosen_logs demo_logger None)) g k"
    by blast
  from out demo_run(2) have "pc = ?pc"
    by (simp add: summary_lines_inj)
  with eq have "tally (records demo_logger) g k = summary_count ?pc g k" for g k
    by (simp add: records_def chosen_logs_def)
  then show ?thesis
    using demo_run(1,2) by (simp add: summary_count_def)
qed

text \<open>
  C4 as stated fails on a log that does not pass the hash check: two records of
  \<open>tampered_log\<close> belong to group A with prediction 1, and the call prints no summary.
\<close>

theorem tampered_log_gets_no_summary:
  "tally (records tampered_log) (PStr ''A'') ''1'' = 2 \<and>
   fst (run_drift_check tampered_log None) = Inr ReturnsFalse \<and>
   SummaryHeader \<notin> set (stdout (snd (run_drift_check tampered_log None)))"
proof -
  have "tally (records tampered_log) (PStr ''A'') ''1'' = 2"
    by (simp add: tally_def records_def tampered_log_def intact_def forged_def eval_defs)
  moreover have valid: "\<forall>a\<in>set (chosen_logs tampered_log None). a < next_addr tampered_log"
    by (simp add: chosen_logs_def tampered_log_def)
  have "check_outcome (map (heap tampered_log) (chosen_logs tampered_log None)) =
        (Inr ReturnsFalse, [IntegrityFailure])"
    by (simp add: chosen_logs_def check_outcome_def tampered_log_def
        entry_check_intact entry_check_forged)
  with run_drift_check_outcome [OF valid, of "fst (run_drift_check tampered_log None)"
      "snd (run_drift_check tampered_log None)"]
  have "fst (run_drift_check tampered_log None) = Inr ReturnsFalse"
    "stdout (snd (run_drift_check tampered_log None)) = [IntegrityFailure]"
    by (simp_all add: tampered_log_def)
  ultimately show ?thesis by simp
qed




text \<open>
  C6 (as the code has it).  \<^verbatim>\<open>log_prediction\<close> compares no timestamps: a record whose
  timestamp is strictly earlier than that of the last stored record is appended like any
  other, provided its data is JSON-serializable.
\<close>

theorem earlier_timestamp_is_appended:
  assumes "wf_state s"
    and "records s \<noteq> []"
    and "dict_get (last (records s)) k_timestamp = Some (PInt t)"
    and "now < t"
    and "json_dumps (PDict input_data) = Inr a"
    and "json_dumps prediction = Inr b"
  shows "\<exists>e s'. log_prediction s now input_data prediction user_group = (Inr (), s') \<and>
           records s' = records s @ [e] \<and> dict_get e k_timestamp = Some (PInt now)"
proof -
  let ?e = "log_entry (model_id s) now input_data prediction user_group"
  from assms(5,6) obtain h where h: "generate_verifiable_hash ?e = Inr h"
    using generate_verifiable_hash_ok [of "model_id s" now input_data prediction user_group]
    by blast
  then have "log_prediction s now input_data prediction user_group
      = (Inr (), append_state s ?e h user_group)"
    by (simp add: log_prediction_eq)
  moreover have "records (append_state s ?e h user_group) = records s @ [sealed ?e h]"
    using assms(1) by (rule records_append_state)
  ultimately show ?thesis
    using dict_get_sealed_timestamp by blast
qed

theorem earlier_timestamp_is_appended_witness:
  "\<exists>e s'. log_prediction logged_once 50 [(KStr ''age'', PInt 22)] (PInt 0) [] = (Inr (), s') \<and>
     records s' = records logged_once @ [e] \<and> dict_get e k_timestamp = Some (PInt 50)"
proof -
  have t: "dict_get (last (records logged_once)) k_timestamp = Some (PInt 100)"
    using records_logged_once by (auto simp: dict_get_sealed_timestamp)
  have ne: "records logged_once \<noteq> []"
    using records_logged_once by auto
  have a: "json_dumps (PDict [(KStr ''age'', PInt 22)]) = Inr (projr (json_dumps (PDict [(KStr ''age'', PInt 22)])))"
    by (simp add: sort_items_def)
  have b: "json_dumps (PInt 0) = Inr (dec_int 0)"
    by simp
  have lt: "(50::int) < 100" by simp
  from earlier_timestamp_is_appended [OF wf_logged_once ne t lt a b]
  show ?thesis .
qed

text \<open>
  C6 as stated fails: after a record with timestamp 100, a record with timestamp 50 is
  accepted and stored behind it.
\<close>

theorem out_of_order_timestamps_stored:
  "fst (log_prediction logged_once 50 [(KStr ''age'', PInt 22)] (PInt 0) []) = Inr () \<and>
   map (\<lambda>e. dict_get e k_timestamp) (records logged_twice) = [Some (PInt 100), Some (PInt 50)]"
  using records_logged_twice records_logged_once
  by (auto simp: logged_twice_eq dict_get_sealed_timestamp)




text \<open>
  C8.  \<^verbatim>\<open>run_drift_check\<close> reads the store and does not write it: the hash is cleared
  on a fresh copy of each entry, so the audit log, every object that existed before the
  call and the model id are as before.  A second call on the same records returns what
  the first returned and prints the same lines.
\<close>

theorem integrity_check_read_only:
  assumes wf: "wf_state s"
    and valid: "valid_logs s historical_logs"
    and run1: "run_drift_check s historical_logs = (r1, s1)"
    and run2: "run_drift_check s1 historical_logs = (r2, s2)"
  shows "audit_log s1 = audit_log s \<and> records s1 = records s \<and> model_id s1 = model_id s \<and>
         (\<forall>a<next_addr s. heap s1 a = heap s a) \<and>
         r2 = r1 \<and> drop (length (stdout s1)) (stdout s2) = drop (length (stdout s)) (stdout s1)"
proof -
  note fr = run_drift_check_frame [OF run1]
  have logs: "chosen_logs s1 historical_logs = chosen_logs s historical_logs"
    using fr by (simp add: chosen_logs_def split: option.splits)
  have v: "\<forall>a\<in>set (chosen_logs s historical_logs). a < next_addr s"
    using valid by (simp add: valid_logs_def list_all_iff)
  then have v1: "\<forall>a\<in>set (chosen_logs s1 historical_logs). a < next_addr s1"
    using fr logs by auto
  have same: "map (heap s1) (chosen_logs s historical_logs) = map (heap s) (chosen_logs s historical_logs)"
    using v fr by (intro map_cong) auto
  from run_drift_check_outcome [OF v run1] run_drift_check_outcome [OF v1 run2]
  have "(r2, drop (length (stdout s1)) (stdout s2)) = (r1, drop (length (stdout s)) (stdout s1))"
    by (simp only: logs same)
  with fr run_drift_check_records [OF wf run1] show ?thesis by simp
qed

theorem integrity_check_read_only_witness:
  "records (snd (run_drift_check logged_twice None)) = records logged_twice \<and>
   fst (run_drift_check (snd (run_drift_check logged_twice None)) None)
     = fst (run_drift_check logged_twice None) \<and>
   fst (run_drift_check logged_twice None) = Inr ReturnsNone"
proof -
  have wf: "wf_state logged_twice"
    using log_prediction_prefix [OF wf_logged_once logged_twice_eq] by simp
  then have valid: "valid_logs logged_twice None"
    by (simp add: valid_logs_def wf_state_def chosen_logs_def)
  have res: "fst (run_drift_check logged_twice None) = Inr ReturnsNone"
    by (simp add: logged_twice_def logged_once_def eval_defs)
  from integrity_check_read_only [OF wf valid surjective_pairing surjective_pairing] res
  show ?thesis by simp
qed

text \<open>
  C9.  The audit log is append-only.  \<open>core_step\<close> is one call of either public
  operation, with any arguments and any outcome.  Over every sequence of such calls the
  records held at the start stay an unchanged prefix of the records held at the end:
  none is edited, none is removed.
\<close>

theorem audit_log_append_only:
  assumes "wf_state s" and "rtranclp core_step s s'"
  shows "prefix (records s) (records s') \<and> wf_state s'"
  using assms(2)
proof (induction rule: rtranclp_induct)
  case base
  show ?case using assms(1) by simp
next
  case (step t u)
  from core_step_prefix [of t u] step show ?case
    by (auto intro: prefix_order.order_trans)
qed

theorem audit_log_append_only_witness:
  "prefix (records logged_once) (records logged_twice) \<and> wf_state logged_twice \<and>
   length (records logged_once) = 1 \<and> length (records logged_twice) = 2"
proof -
  have "rtranclp core_step logged_once logged_twice"
    using core_step.log [OF logged_twice_eq] by (rule r_into_rtranclp)
  from audit_log_append_only [OF wf_logged_once this] length_records_logged_once
  show ?thesis
    by simp (simp add: records_def logged_twice_def logged_once_def eval_defs)
qed

end
